theory Spec2Isabelle
  imports Main
begin

section \<open>The assistant bot of chubbPresent.py\<close>

text \<open>
  The bot glues three parties together: a request handler (\<open>handle_message\<close>), worker
  threads that stream a completion (\<open>stream_events\<close>, \<open>stream_follow_up\<close>) and a polling
  display (\<open>update_gui\<close>). They communicate through two queues and one boolean flag, all
  fields of the \<open>AssistantBot\<close> object.

  Left out: the logging calls, which touch none of these fields; the widgets that
  \<open>create_gui\<close> builds and the Tk main loop; exceptions that are not instances of
  \<open>Exception\<close>, which the \<open>except\<close> clauses of the workers do not catch.
\<close>

subsection \<open>Strings\<close>

text \<open>Python's \<open>msg.startswith(p)\<close> and \<open>p in msg\<close> on strings.\<close>

fun startswith :: "string \<Rightarrow> string \<Rightarrow> bool" where
  "startswith msg [] = True"
| "startswith [] (p # ps) = False"
| "startswith (c # cs) (p # ps) = (c = p \<and> startswith cs ps)"

fun str_in :: "string \<Rightarrow> string \<Rightarrow> bool" where
  "str_in p [] = (p = [])"
| "str_in p (c # cs) = (startswith (c # cs) p \<or> str_in p cs)"

subsection \<open>The completion service\<close>

text \<open>
  A Python iterator that is consumed by a \<open>for\<close> loop: it ends (\<open>Stop\<close>), yields an
  item and goes on, or raises an exception whose \<open>str\<close> is the given text. Streams are
  finite here: a service that never stops sending is not modelled.
\<close>

datatype 'a pystream = Stop | Yield 'a "'a pystream" | Raise string

text \<open>The stream that yields the items of a list and then continues as \<open>t\<close>.\<close>

fun yields :: "'a list \<Rightarrow> 'a pystream \<Rightarrow> 'a pystream" where
  "yields [] t = t"
| "yields (x # xs) t = Yield x (yields xs t)"

text \<open>
  An event of the primary stream: \<open>event.event\<close>, and \<open>event.data.delta\<close>, which is
  \<open>None\<close> or an object whose \<open>content\<close> is \<open>None\<close> or a list of blocks; a block has a
  \<open>type\<close> and a \<open>text.value\<close>.
\<close>

record block =
  block_type :: string
  text_value :: string

record stream_event =
  event :: string
  data_delta :: "block list option option"

text \<open>
  A chunk of the follow-up stream: \<open>chunk.choices\<close>, each choice reduced to the
  \<open>content\<close> of its delta (\<open>None\<close> when the attribute is missing or \<open>None\<close>).
\<close>

type_synonym chunk = "string option list"

text \<open>
  The client: \<open>client.beta.threads.create_and_run\<close> takes the assistant id and the
  user message, \<open>client.chat.completions.create\<close> the list of (role, content) messages
  (the sampling parameters are constants of the source). Each returns a stream or raises.
\<close>

record client =
  create_and_run :: "string \<Rightarrow> string \<Rightarrow> string + stream_event pystream"
  chat_completions_create :: "(string \<times> string) list \<Rightarrow> string + chunk pystream"

subsection \<open>The bot's state and the effects of a worker\<close>

record update =
  update_id :: nat
  message_text :: string

text \<open>
  What a worker thread does to the shared fields, in program order: an assignment to
  \<open>self.is_processing\<close>, a \<open>put\<close> on \<open>self.message_queue\<close> (\<open>None\<close> is the end-of-stream
  sentinel) and a \<open>put\<close> on \<open>self.done_queue\<close>. A worker reads none of the shared fields.
\<close>

datatype effect = SetProcessing bool | PutMessage "string option" | PutDone update

subsection \<open>stream\_follow\_up\<close>

definition follow_up_system_prompt :: string where
  "follow_up_system_prompt =
     ''You are an assistant tasked with generating possible follow-up questions based on the input question and answer, along with well-structured responses to aid in addressing examiner questions during a thesis results seminar. '' @
     ''Focus on commonly asked follow-up questions that frequently arise in thesis defense sessions and are relevant to the input question and answer. '' @
     ''For each response, generate a structured and concise answer that i can be directly read aloud during the presentation. '' @
     ''If applicable, highlight supporting data, statistical results, or comparisons with existing literature from the input, and avoid introducing speculative values or additional outcomes not explicitly mentioned. '' @
     ''Use your general knowledge and other references if the question is a common one or to improve argument '' @
     ''Always respond in Indonesian, don't use us but me, and don't use language that is too stiff, so that I can read it directly during the presentation.''"

definition follow_up_messages :: "string \<Rightarrow> string \<Rightarrow> (string \<times> string) list" where
  "follow_up_messages user_message assistant_response =
     [(''system'', follow_up_system_prompt),
      (''user'', ''Question: '' @ user_message @ ''\<newline>Answer: '' @ assistant_response)]"

definition follow_up_separator :: string where
  "follow_up_separator =
     ''\<newline>\<newline>Possible Follow-up Questions and Answers:\<newline>______________________________________\<newline>\<newline>''"

definition follow_up_error :: "string \<Rightarrow> string" where
  "follow_up_error e = ''\<newline>An error occurred while generating follow-up: '' @ e @ ''\<newline>''"

text \<open>
  The loop \<open>for chunk in response\<close>: the effects so far and the exception that ended the
  loop, if any. \<open>chunk.choices[0]\<close> raises IndexError on an empty list.
\<close>

fun follow_up_loop :: "chunk pystream \<Rightarrow> effect list \<times> string option" where
  "follow_up_loop Stop = ([], None)"
| "follow_up_loop (Raise e) = ([], Some e)"
| "follow_up_loop (Yield ch rest) =
     (case ch of
        [] \<Rightarrow> ([], Some ''list index out of range'')
      | content # _ \<Rightarrow>
          (case follow_up_loop rest of (es, r) \<Rightarrow>
             (case content of
                None \<Rightarrow> (es, r)
              | Some t \<Rightarrow> if t \<noteq> [] then (PutMessage (Some t) # es, r) else (es, r))))"

definition stream_follow_up :: "client \<Rightarrow> string \<Rightarrow> string \<Rightarrow> effect list" where
  "stream_follow_up c user_message assistant_response =
     PutMessage (Some follow_up_separator) #
     (case chat_completions_create c (follow_up_messages user_message assistant_response) of
        Inl e \<Rightarrow> [PutMessage (Some (follow_up_error e))]
      | Inr response \<Rightarrow>
          (case follow_up_loop response of
             (es, None) \<Rightarrow> es
           | (es, Some e) \<Rightarrow> es @ [PutMessage (Some (follow_up_error e))]))"

subsection \<open>stream\_events\<close>

definition answers_separator :: "string \<Rightarrow> string" where
  "answers_separator user_message =
     ''\<newline>\<newline>Answers for '' @ user_message @ '':\<newline>______________________________________\<newline>\<newline>''"

definition stream_error :: "string \<Rightarrow> string" where
  "stream_error e = ''An error occurred: '' @ e"

text \<open>
  The loop \<open>for block in delta.content\<close>: the effects and the new value of
  \<open>assistant_response\<close>.
\<close>

fun process_blocks :: "block list \<Rightarrow> string \<Rightarrow> effect list \<times> string" where
  "process_blocks [] resp = ([], resp)"
| "process_blocks (b # bs) resp =
     (if block_type b = ''text''
      then (case process_blocks bs (resp @ text_value b) of
              (es, resp') \<Rightarrow> (PutMessage (Some (text_value b)) # es, resp'))
      else process_blocks bs resp)"

text \<open>
  The loop \<open>for event in stream\<close>, with \<open>assistant_response\<close> as accumulator: the effects
  and the exception that ended the loop, if any. The loop goes on after a
  \<open>thread.message.completed\<close> event: there is no \<open>break\<close>.
\<close>

fun stream_loop ::
  "client \<Rightarrow> string \<Rightarrow> update \<Rightarrow> stream_event pystream \<Rightarrow> string \<Rightarrow> effect list \<times> string option"
where
  "stream_loop c user_message upd Stop resp = ([], None)"
| "stream_loop c user_message upd (Raise e) resp = ([], Some e)"
| "stream_loop c user_message upd (Yield ev rest) resp =
     (if event ev = ''thread.message.delta'' then
        (case data_delta ev of
           Some (Some bs) \<Rightarrow>
             if bs \<noteq> [] then
               (case process_blocks bs resp of (es, resp') \<Rightarrow>
                  (case stream_loop c user_message upd rest resp' of (es', r) \<Rightarrow> (es @ es', r)))
             else stream_loop c user_message upd rest resp
         | _ \<Rightarrow> stream_loop c user_message upd rest resp)
      else if event ev = ''thread.message.completed'' then
        (case stream_loop c user_message upd rest resp of (es', r) \<Rightarrow>
           (stream_follow_up c user_message resp @ [PutMessage None, PutDone upd] @ es', r))
      else stream_loop c user_message upd rest resp)"

definition stream_events :: "client \<Rightarrow> string \<Rightarrow> string \<Rightarrow> update \<Rightarrow> effect list" where
  "stream_events c assistant_id user_message upd =
     SetProcessing True #
     (case create_and_run c assistant_id user_message of
        Inl e \<Rightarrow> [PutMessage (Some (stream_error e))]
      | Inr stream \<Rightarrow>
          PutMessage (Some (answers_separator user_message)) #
          (case stream_loop c user_message upd stream [] of
             (es, None) \<Rightarrow> es
           | (es, Some e) \<Rightarrow> es @ [PutMessage (Some (stream_error e))])) @
     [SetProcessing False]"

subsection \<open>The bot\<close>

text \<open>
  The operations on the text widget: \<open>configure(state=...)\<close>,
  \<open>insert(tk.END, text)\<close> with an optional tag, and \<open>see(tk.END)\<close>.
\<close>

datatype widget_op = Configure string | Insert string "string option" | See

text \<open>
  The Tk root window: whether \<open>winfo_exists()\<close> holds, and the delays (in ms) of the
  \<open>after(delay, self.update_gui)\<close> calls made on it.
\<close>

record tk =
  winfo_exists :: bool
  after_calls :: "nat list"

text \<open>A thread started by \<open>start_streaming\<close>: its arguments and how many effects it has performed.\<close>

record stream_thread =
  thread_user_message :: string
  thread_update :: update
  thread_pc :: nat

text \<open>
  \<open>text_display\<close> is \<open>None\<close> or the widget, given by the operations applied to it.
  The last three fields are the bot's environment: the stream threads started, the
  number of GUI threads started, and the replies sent with \<open>update.message.reply_text\<close>.
\<close>

record bot =
  is_processing :: bool
  root :: "tk option"
  text_display :: "widget_op list option"
  message_queue :: "string option list"
  done_queue :: "update list"
  stream_threads :: "stream_thread list"
  gui_threads :: nat
  replies :: "(update \<times> string) list"

fun perform :: "effect \<Rightarrow> bot \<Rightarrow> bot" where
  "perform (SetProcessing b) s = s\<lparr>is_processing := b\<rparr>"
| "perform (PutMessage m) s = s\<lparr>message_queue := message_queue s @ [m]\<rparr>"
| "perform (PutDone u) s = s\<lparr>done_queue := done_queue s @ [u]\<rparr>"

text \<open>A worker that runs from start to exit with no other thread in between.\<close>

fun run_effects :: "effect list \<Rightarrow> bot \<Rightarrow> bot" where
  "run_effects [] s = s"
| "run_effects (e # es) s = run_effects es (perform e s)"

subsection \<open>update\_gui\<close>

definition surface_ok :: "bot \<Rightarrow> bool" where
  "surface_ok s =
     (text_display s \<noteq> None \<and> (case root s of None \<Rightarrow> False | Some r \<Rightarrow> winfo_exists r))"

definition render_error :: "string \<Rightarrow> widget_op list" where
  "render_error msg =
     [Configure ''normal'', Insert (''\<newline>ERROR: '' @ msg @ ''\<newline>'') None,
      Configure ''disabled'', See]"

definition render_text :: "string \<Rightarrow> widget_op list" where
  "render_text msg =
     Configure ''normal'' #
     (if str_in ''Answers for'' msg \<or> str_in ''Possible Follow-up Questions and Answers'' msg
      then [Insert msg (Some ''separator''), See]
      else [Insert msg None]) @
     [Configure ''disabled'']"

text \<open>
  The loop \<open>while True: msg = self.message_queue.get_nowait()\<close>: what is left in the
  queue and the operations applied to the widget. \<open>ok\<close> is the test
  \<open>self.text_display and self.root and self.root.winfo_exists()\<close>. The empty queue
  raises \<open>queue.Empty\<close>, which ends the loop.
\<close>

fun gui_loop :: "bool \<Rightarrow> string option list \<Rightarrow> string option list \<times> widget_op list" where
  "gui_loop ok [] = ([], [])"
| "gui_loop ok (None # q) = (q, [])"
| "gui_loop ok (Some msg # q) =
     (if startswith msg ''An error occurred:''
      then (q, if ok then render_error msg else [])
      else (case gui_loop ok q of (q', ops) \<Rightarrow> (q', (if ok then render_text msg else []) @ ops)))"

definition update_gui :: "bot \<Rightarrow> bot" where
  "update_gui s =
     (case gui_loop (surface_ok s) (message_queue s) of (q, ops) \<Rightarrow>
        s\<lparr>message_queue := q,
          text_display := map_option (\<lambda>d. d @ ops) (text_display s),
          root := (case root s of
                     None \<Rightarrow> None
                   | Some r \<Rightarrow>
                       if winfo_exists r then Some (r\<lparr>after_calls := after_calls r @ [100]\<rparr>)
                       else Some r)\<rparr>)"

subsection \<open>start\_streaming, handle\_message, check\_done\_queue\<close>

definition start_streaming :: "string \<Rightarrow> update \<Rightarrow> bot \<Rightarrow> bot" where
  "start_streaming user_message upd s =
     s\<lparr>stream_threads := stream_threads s @
          [\<lparr>thread_user_message = user_message, thread_update = upd, thread_pc = 0\<rparr>]\<rparr>"

definition handle_message :: "update \<Rightarrow> bot \<Rightarrow> bot" where
  "handle_message upd s =
     (if is_processing s
      then s\<lparr>replies := replies s @
                 [(upd, ''I'm still processing the previous request. Please wait.'')]\<rparr>
      else
        (let s1 = start_streaming (message_text upd) upd s;
             s2 = (if (case root s1 of None \<Rightarrow> True | Some r \<Rightarrow> \<not> winfo_exists r)
                   then s1\<lparr>gui_threads := Suc (gui_threads s1)\<rparr> else s1)
         in s2\<lparr>replies := replies s2 @ [(upd, ''Processing your request...'')]\<rparr>))"

definition check_done_queue :: "bot \<Rightarrow> bot" where
  "check_done_queue s =
     s\<lparr>done_queue := [], replies := replies s @ map (\<lambda>u. (u, ''Done'')) (done_queue s)\<rparr>"

subsection \<open>Threads running side by side\<close>

text \<open>
  The handler runs on the event loop and each worker in a thread of its own. A schedule
  says who moves next: the handler takes one inbound message, or the worker with the
  given index performs its next effect. A worker is active from the moment
  \<open>thread.start()\<close> spawned it until it has performed its last effect.
\<close>

datatype sched = Dispatch update | WorkerStep nat

definition worker_step :: "client \<Rightarrow> string \<Rightarrow> nat \<Rightarrow> bot \<Rightarrow> bot" where
  "worker_step c assistant_id i s =
     (if i < length (stream_threads s) then
        (let t = stream_threads s ! i;
             prog = stream_events c assistant_id (thread_user_message t) (thread_update t)
         in if thread_pc t < length prog
            then perform (prog ! thread_pc t)
                   (s\<lparr>stream_threads := (stream_threads s)[i := t\<lparr>thread_pc := Suc (thread_pc t)\<rparr>]\<rparr>)
            else s)
      else s)"

fun sched_step :: "client \<Rightarrow> string \<Rightarrow> sched \<Rightarrow> bot \<Rightarrow> bot" where
  "sched_step c assistant_id (Dispatch upd) s = handle_message upd s"
| "sched_step c assistant_id (WorkerStep i) s = worker_step c assistant_id i s"

fun run_schedule :: "client \<Rightarrow> string \<Rightarrow> sched list \<Rightarrow> bot \<Rightarrow> bot" where
  "run_schedule c assistant_id [] s = s"
| "run_schedule c assistant_id (x # xs) s =
     run_schedule c assistant_id xs (sched_step c assistant_id x s)"

definition active_workers :: "client \<Rightarrow> string \<Rightarrow> bot \<Rightarrow> stream_thread list" where
  "active_workers c assistant_id s =
     filter (\<lambda>t. thread_pc t <
                  length (stream_events c assistant_id (thread_user_message t) (thread_update t)))
       (stream_threads s)"

text \<open>The bot as \<open>__init__\<close> leaves it.\<close>

definition init_bot :: bot where
  "init_bot = \<lparr>is_processing = False, root = None, text_display = None, message_queue = [],
     done_queue = [], stream_threads = [], gui_threads = 0, replies = []\<rparr>"

subsection \<open>Reading effects, inputs and states\<close>

text \<open>The values put on the message queue, on the done queue and written to the flag.\<close>

fun put_messages :: "effect list \<Rightarrow> string option list" where
  "put_messages [] = []"
| "put_messages (PutMessage m # es) = m # put_messages es"
| "put_messages (SetProcessing b # es) = put_messages es"
| "put_messages (PutDone u # es) = put_messages es"

fun put_dones :: "effect list \<Rightarrow> update list" where
  "put_dones [] = []"
| "put_dones (PutDone u # es) = u # put_dones es"
| "put_dones (SetProcessing b # es) = put_dones es"
| "put_dones (PutMessage m # es) = put_dones es"

fun gate_writes :: "effect list \<Rightarrow> bool list" where
  "gate_writes [] = []"
| "gate_writes (SetProcessing b # es) = b # gate_writes es"
| "gate_writes (PutMessage m # es) = gate_writes es"
| "gate_writes (PutDone u # es) = gate_writes es"

definition put_text :: "string \<Rightarrow> effect" where
  "put_text t = PutMessage (Some t)"

text \<open>A delta event that carries one text block, and the event that completes a message.\<close>

definition text_delta :: "string \<Rightarrow> stream_event" where
  "text_delta t = \<lparr>event = ''thread.message.delta'',
     data_delta = Some (Some [\<lparr>block_type = ''text'', text_value = t\<rparr>])\<rparr>"

definition message_completed :: stream_event where
  "message_completed = \<lparr>event = ''thread.message.completed'', data_delta = None\<rparr>"

text \<open>
  The texts that the events of a stream carry: the values of the text blocks of the
  delta events, in stream order. Every other event carries none.
\<close>

definition block_texts :: "block list \<Rightarrow> string list" where
  "block_texts bs = map text_value (filter (\<lambda>b. block_type b = ''text'') bs)"

definition event_texts :: "stream_event \<Rightarrow> string list" where
  "event_texts ev =
     (if event ev = ''thread.message.delta''
      then (case data_delta ev of Some (Some bs) \<Rightarrow> block_texts bs | _ \<Rightarrow> [])
      else [])"

definition delta_texts :: "stream_event list \<Rightarrow> string list" where
  "delta_texts evs = concat (map event_texts evs)"

text \<open>The non-empty contents of the first choice of each chunk, in stream order.\<close>

fun chunk_texts :: "chunk list \<Rightarrow> string list" where
  "chunk_texts [] = []"
| "chunk_texts ((Some t # _) # chs) = (if t \<noteq> [] then t # chunk_texts chs else chunk_texts chs)"
| "chunk_texts (_ # chs) = chunk_texts chs"

text \<open>A service that answers every call the same way, and one that echoes the question.\<close>

definition const_client :: "string + stream_event pystream \<Rightarrow> string + chunk pystream \<Rightarrow> client" where
  "const_client primary secondary =
     \<lparr>create_and_run = (\<lambda>assistant_id user_message. primary),
      chat_completions_create = (\<lambda>messages. secondary)\<rparr>"

definition echo_client :: client where
  "echo_client =
     \<lparr>create_and_run = (\<lambda>assistant_id user_message.
        Inr (yields [text_delta (''re '' @ user_message), message_completed] Stop)),
      chat_completions_create = (\<lambda>messages. Inr (yields [[Some ''more'']] Stop))\<rparr>"

text \<open>A bot whose window is open, with the given message queue.\<close>

definition active_bot :: "string option list \<Rightarrow> bot" where
  "active_bot q = init_bot\<lparr>root := Some \<lparr>winfo_exists = True, after_calls = []\<rparr>,
     text_display := Some [], message_queue := q\<rparr>"

definition window_exists :: "bot \<Rightarrow> bool" where
  "window_exists s = (case root s of None \<Rightarrow> False | Some r \<Rightarrow> winfo_exists r)"

definition scheduled :: "bot \<Rightarrow> nat list" where
  "scheduled s = (case root s of None \<Rightarrow> [] | Some r \<Rightarrow> after_calls r)"

text \<open>The messages at which \<open>update_gui\<close> leaves its loop with \<open>break\<close>.\<close>

fun stops_drain :: "string option \<Rightarrow> bool" where
  "stops_drain None = True"
| "stops_drain (Some msg) = startswith msg ''An error occurred:''"

text \<open>The texts inserted into the widget by a list of operations.\<close>

fun inserted :: "widget_op list \<Rightarrow> string list" where
  "inserted [] = []"
| "inserted (Insert t tag # ops) = t # inserted ops"
| "inserted (Configure st # ops) = inserted ops"
| "inserted (See # ops) = inserted ops"

text \<open>The bot without the record of the replies it sent.\<close>

definition forget_replies :: "bot \<Rightarrow> bot" where
  "forget_replies s = s\<lparr>replies := []\<rparr>"

section \<open>Properties\<close>

subsection \<open>Strings\<close>

lemma startswith_iff: "startswith msg p \<longleftrightarrow> (\<exists>r. msg = p @ r)"
  by (induction msg p rule: startswith.induct) auto

lemma str_in_iff: "str_in p msg \<longleftrightarrow> (\<exists>a b. msg = a @ p @ b)"
proof (induction msg)
  case Nil
  then show ?case by auto
next
  case (Cons c cs)
  show ?case
  proof
    assume "str_in p (c # cs)"
    then consider "startswith (c # cs) p" | "str_in p cs" by auto
    then show "\<exists>a b. c # cs = a @ p @ b"
    proof cases
      case 1
      then obtain r where "c # cs = p @ r" by (auto simp: startswith_iff)
      then have "c # cs = [] @ p @ r" by simp
      then show ?thesis by blast
    next
      case 2
      then obtain a b where "cs = a @ p @ b" using Cons.IH by blast
      then have "c # cs = (c # a) @ p @ b" by simp
      then show ?thesis by blast
    qed
  next
    assume "\<exists>a b. c # cs = a @ p @ b"
    then obtain a b where ab: "c # cs = a @ p @ b" by blast
    show "str_in p (c # cs)"
    proof (cases a)
      case Nil
      then have "startswith (c # cs) p" using ab by (auto simp: startswith_iff)
      then show ?thesis by simp
    next
      case (Cons x a')
      then have "cs = a' @ p @ b" using ab by simp
      then have "str_in p cs" using Cons.IH by blast
      then show ?thesis by simp
    qed
  qed
qed

subsection \<open>Effects and the state they leave\<close>

lemma put_messages_append [simp]: "put_messages (xs @ ys) = put_messages xs @ put_messages ys"
  by (induction xs rule: put_messages.induct) auto

lemma put_dones_append [simp]: "put_dones (xs @ ys) = put_dones xs @ put_dones ys"
  by (induction xs rule: put_dones.induct) auto

lemma gate_writes_append [simp]: "gate_writes (xs @ ys) = gate_writes xs @ gate_writes ys"
  by (induction xs rule: gate_writes.induct) auto

lemma put_messages_map_put_text [simp]: "put_messages (map put_text ts) = map Some ts"
  by (induction ts) (auto simp: put_text_def)

lemma put_dones_map_put_text [simp]: "put_dones (map put_text ts) = []"
  by (induction ts) (auto simp: put_text_def)

lemma gate_writes_map_put_text [simp]: "gate_writes (map put_text ts) = []"
  by (induction ts) (auto simp: put_text_def)

lemma message_queue_run_effects:
  "message_queue (run_effects es s) = message_queue s @ put_messages es"
  by (induction es arbitrary: s rule: put_messages.induct) auto

lemma done_queue_run_effects:
  "done_queue (run_effects es s) = done_queue s @ put_dones es"
  by (induction es arbitrary: s rule: put_dones.induct) auto

lemma is_processing_run_effects:
  "is_processing (run_effects es s) =
     (if gate_writes es = [] then is_processing s else last (gate_writes es))"
  by (induction es arbitrary: s rule: gate_writes.induct) auto

lemma replies_run_effects: "replies (run_effects es s) = replies s"
  by (induction es arbitrary: s rule: put_messages.induct) auto

subsection \<open>The two loops of the workers\<close>

lemma follow_up_loop_yields_Stop:
  "\<forall>ch\<in>set chunks. ch \<noteq> [] \<Longrightarrow>
   follow_up_loop (yields chunks Stop) = (map put_text (chunk_texts chunks), None)"
  by (induction chunks rule: chunk_texts.induct) (auto simp: put_text_def)

lemma follow_up_loop_yields_Raise:
  "\<forall>ch\<in>set chunks. ch \<noteq> [] \<Longrightarrow>
   follow_up_loop (yields chunks (Raise e)) = (map put_text (chunk_texts chunks), Some e)"
  by (induction chunks rule: chunk_texts.induct) (auto simp: put_text_def)

lemma gate_writes_follow_up_loop: "gate_writes (fst (follow_up_loop st)) = []"
  by (induction st) (auto split: list.splits option.splits prod.splits)


lemma gate_writes_stream_follow_up: "gate_writes (stream_follow_up c um resp) = []"
  using gate_writes_follow_up_loop
  by (auto simp: stream_follow_up_def split: sum.splits prod.splits option.splits)
     (metis fst_conv)+


lemma gate_writes_process_blocks: "gate_writes (fst (process_blocks bs resp)) = []"
  by (induction bs resp rule: process_blocks.induct) (auto split: prod.splits)

lemma gate_writes_stream_loop: "gate_writes (fst (stream_loop c um upd st resp)) = []"
proof (induction st arbitrary: resp)
  case (Yield ev rest)
  show ?case
    using Yield.IH gate_writes_process_blocks gate_writes_stream_follow_up
    by (auto split: option.splits prod.splits) (metis fst_conv)+
qed auto

lemma yields_append: "yields (xs @ ys) t = yields xs (yields ys t)"
  by (induction xs) auto

lemma process_blocks_block_texts:
  "process_blocks bs resp = (map put_text (block_texts bs), resp @ concat (block_texts bs))"
  by (induction bs arbitrary: resp) (simp_all add: block_texts_def put_text_def)

lemma stream_loop_other_event:
  assumes "event ev \<noteq> ''thread.message.completed''"
  shows "stream_loop c um upd (Yield ev rest) resp =
           (case stream_loop c um upd rest (resp @ concat (event_texts ev)) of
              (es, r) \<Rightarrow> (map put_text (event_texts ev) @ es, r))"
proof (cases "event ev = ''thread.message.delta''")
  case False
  then show ?thesis using assms by (simp add: event_texts_def split: prod.splits)
next
  case True
  show ?thesis
  proof (cases "data_delta ev")
    case None
    then show ?thesis using True by (simp add: event_texts_def split: prod.splits)
  next
    case (Some content)
    show ?thesis
    proof (cases content)
      case None
      then show ?thesis using True Some by (simp add: event_texts_def split: prod.splits)
    next
      case (Some bs)
      show ?thesis
      proof (cases "bs = []")
        case True
        then show ?thesis
          using \<open>event ev = ''thread.message.delta''\<close> \<open>data_delta ev = Some content\<close> Some
          by (simp add: event_texts_def block_texts_def split: prod.splits)
      next
        case False
        then show ?thesis
          using \<open>event ev = ''thread.message.delta''\<close> \<open>data_delta ev = Some content\<close> Some
          by (simp add: event_texts_def process_blocks_block_texts split: prod.splits)
      qed
    qed
  qed
qed

lemma stream_loop_before_completed:
  assumes "\<forall>ev\<in>set evs. event ev \<noteq> ''thread.message.completed''"
  shows "stream_loop c um upd (yields evs rest) resp =
           (case stream_loop c um upd rest (resp @ concat (delta_texts evs)) of
              (es, r) \<Rightarrow> (map put_text (delta_texts evs) @ es, r))"
  using assms
proof (induction evs arbitrary: resp)
  case Nil
  then show ?case by (simp add: delta_texts_def split: prod.splits)
next
  case (Cons ev evs)
  then have ev: "event ev \<noteq> ''thread.message.completed''"
    and IH: "\<And>resp. stream_loop c um upd (yields evs rest) resp =
           (case stream_loop c um upd rest (resp @ concat (delta_texts evs)) of
              (es, r) \<Rightarrow> (map put_text (delta_texts evs) @ es, r))"
    by simp_all
  have dt: "delta_texts (ev # evs) = event_texts ev @ delta_texts evs"
    by (simp add: delta_texts_def)
  show ?case
    unfolding yields.simps stream_loop_other_event [OF ev] IH dt
    by (simp split: prod.splits)
qed

lemma delta_texts_silent:
  "\<forall>ev\<in>set evs. event_texts ev = [] \<Longrightarrow> delta_texts evs = []"
  by (induction evs) (simp_all add: delta_texts_def)

lemma stream_loop_silent_tail:
  assumes "\<forall>ev\<in>set post. event ev \<noteq> ''thread.message.completed'' \<and> event_texts ev = []"
  shows "stream_loop c um upd (yields post Stop) resp = ([], None)"
proof -
  have 1: "\<forall>ev\<in>set post. event ev \<noteq> ''thread.message.completed''" using assms by simp
  have 2: "delta_texts post = []" using assms by (simp add: delta_texts_silent)
  show ?thesis
    unfolding stream_loop_before_completed [OF 1] 2 by simp
qed

lemma stream_loop_completed_event:
  assumes "event ev = ''thread.message.completed''"
  shows "stream_loop c um upd (Yield ev rest) resp =
           (case stream_loop c um upd rest resp of
              (es, r) \<Rightarrow> (stream_follow_up c um resp @ [PutMessage None, PutDone upd] @ es, r))"
  using assms by simp

lemma stream_events_one_completed:
  assumes primary: "create_and_run c aid um = Inr (yields (pre @ [done_ev] @ post) Stop)"
    and completed: "event done_ev = ''thread.message.completed''"
    and before: "\<forall>ev\<in>set pre. event ev \<noteq> ''thread.message.completed''"
    and after: "\<forall>ev\<in>set post. event ev \<noteq> ''thread.message.completed'' \<and> event_texts ev = []"
  shows "stream_events c aid um upd =
           [SetProcessing True, put_text (answers_separator um)] @ map put_text (delta_texts pre) @
           stream_follow_up c um (concat (delta_texts pre)) @
           [PutMessage None, PutDone upd, SetProcessing False]"
proof -
  have "stream_loop c um upd (yields (pre @ [done_ev] @ post) Stop) [] =
          (map put_text (delta_texts pre) @ stream_follow_up c um (concat (delta_texts pre)) @
             [PutMessage None, PutDone upd], None)"
    unfolding yields_append stream_loop_before_completed [OF before] yields.simps
      stream_loop_completed_event [OF completed] stream_loop_silent_tail [OF after]
    by simp
  then show ?thesis
    using primary by (simp add: stream_events_def put_text_def)
qed

lemma stream_loop_raise_result:
  "snd (stream_loop c um upd (yields evs (Raise e)) resp) = Some e"
proof (induction evs arbitrary: resp)
  case Nil
  then show ?case by simp
next
  case (Cons ev evs)
  show ?case
  proof (cases "event ev = ''thread.message.completed''")
    case True
    show ?thesis
      unfolding yields.simps stream_loop_completed_event [OF True]
      by (simp add: case_prod_beta Cons.IH)
  next
    case False
    show ?thesis
      unfolding yields.simps stream_loop_other_event [OF False]
      by (simp add: case_prod_beta Cons.IH)
  qed
qed

lemma stream_follow_up_ok:
  assumes "chat_completions_create c (follow_up_messages um resp) = Inr (yields chunks Stop)"
    and "\<forall>ch\<in>set chunks. ch \<noteq> []"
  shows "stream_follow_up c um resp =
           put_text follow_up_separator # map put_text (chunk_texts chunks)"
  using assms by (simp add: stream_follow_up_def follow_up_loop_yields_Stop put_text_def)

lemma stream_follow_up_setup_fails:
  assumes "chat_completions_create c (follow_up_messages um resp) = Inl e"
  shows "stream_follow_up c um resp =
           [put_text follow_up_separator, put_text (follow_up_error e)]"
  using assms by (simp add: stream_follow_up_def put_text_def)

lemma stream_follow_up_raises:
  assumes "chat_completions_create c (follow_up_messages um resp) = Inr (yields chunks (Raise e))"
    and "\<forall>ch\<in>set chunks. ch \<noteq> []"
  shows "stream_follow_up c um resp =
           put_text follow_up_separator # map put_text (chunk_texts chunks) @
           [put_text (follow_up_error e)]"
  using assms by (simp add: stream_follow_up_def follow_up_loop_yields_Raise put_text_def)

subsection \<open>The order of the events of one request\<close>

text \<open>A sentinel is only ever put right after a follow-up run.\<close>

lemma split_at_sentinel_left:
  assumes "a @ b = xs @ PutMessage None # ys" and "PutMessage None \<notin> set a"
  shows "\<exists>xs2. xs = a @ xs2 \<and> b = xs2 @ PutMessage None # ys"
proof -
  from assms(1) obtain us where
    "(a = xs @ us \<and> us @ b = PutMessage None # ys) \<or> (a @ us = xs \<and> b = us @ PutMessage None # ys)"
    by (auto simp: append_eq_append_conv2)
  then show ?thesis
  proof
    assume h: "a = xs @ us \<and> us @ b = PutMessage None # ys"
    show ?thesis
    proof (cases us)
      case Nil
      then show ?thesis using h by simp
    next
      case (Cons u us')
      then have "u = PutMessage None" using h by simp
      then have "PutMessage None \<in> set a" using h Cons by simp
      then show ?thesis using assms(2) by simp
    qed
  next
    assume "a @ us = xs \<and> b = us @ PutMessage None # ys"
    then show ?thesis by blast
  qed
qed

lemma split_at_sentinel_right:
  assumes "a @ b = xs @ PutMessage None # ys" and "PutMessage None \<notin> set b"
  shows "\<exists>ys2. a = xs @ PutMessage None # ys2"
proof -
  from assms(1) obtain us where
    "(a = xs @ us \<and> us @ b = PutMessage None # ys) \<or> (a @ us = xs \<and> b = us @ PutMessage None # ys)"
    by (auto simp: append_eq_append_conv2)
  then show ?thesis
  proof
    assume h: "a = xs @ us \<and> us @ b = PutMessage None # ys"
    show ?thesis
    proof (cases us)
      case Nil
      then have "PutMessage None \<in> set b" using h by simp
      then show ?thesis using assms(2) by simp
    next
      case (Cons u us')
      then show ?thesis using h by simp
    qed
  next
    assume "a @ us = xs \<and> b = us @ PutMessage None # ys"
    then have "PutMessage None \<in> set b" by simp
    then show ?thesis using assms(2) by simp
  qed
qed

lemma no_sentinel_put_texts: "PutMessage None \<notin> set (map put_text ts)"
  by (auto simp: put_text_def)

lemma no_sentinel_follow_up_loop: "PutMessage None \<notin> set (fst (follow_up_loop st))"
  by (induction st) (auto split: list.splits option.splits prod.splits)

lemma no_sentinel_stream_follow_up: "PutMessage None \<notin> set (stream_follow_up c um resp)"
proof (cases "chat_completions_create c (follow_up_messages um resp)")
  case (Inl e)
  then show ?thesis by (simp add: stream_follow_up_def)
next
  case (Inr st)
  obtain es r where loop: "follow_up_loop st = (es, r)" by (cases "follow_up_loop st")
  have "PutMessage None \<notin> set es"
    using no_sentinel_follow_up_loop [of st] loop by simp
  then show ?thesis
    using Inr loop by (cases r) (simp_all add: stream_follow_up_def)
qed

lemma sentinel_after_follow_up_loop:
  "fst (stream_loop c um upd st resp) = xs @ PutMessage None # ys \<Longrightarrow>
   \<exists>xs' resp'. xs = xs' @ stream_follow_up c um resp'"
proof (induction st arbitrary: resp xs)
  case Stop
  then show ?case by simp
next
  case (Raise e)
  then show ?case by simp
next
  case (Yield ev rest)
  show ?case
  proof (cases "event ev = ''thread.message.completed''")
    case False
    let ?a = "map put_text (event_texts ev)"
    let ?resp = "resp @ concat (event_texts ev)"
    have "fst (stream_loop c um upd (Yield ev rest) resp) =
            ?a @ fst (stream_loop c um upd rest ?resp)"
      unfolding stream_loop_other_event [OF False] by (simp add: case_prod_beta)
    then have "?a @ fst (stream_loop c um upd rest ?resp) = xs @ PutMessage None # ys"
      using Yield.prems by simp
    then obtain xs2 where xs: "xs = ?a @ xs2"
      and rest: "fst (stream_loop c um upd rest ?resp) = xs2 @ PutMessage None # ys"
      using split_at_sentinel_left [OF _ no_sentinel_put_texts] by blast
    obtain xs' resp' where "xs2 = xs' @ stream_follow_up c um resp'"
      using Yield.IH [OF rest] by blast
    then have "xs = (?a @ xs') @ stream_follow_up c um resp'" using xs by simp
    then show ?thesis by blast
  next
    case True
    let ?fu = "stream_follow_up c um resp"
    let ?es = "fst (stream_loop c um upd rest resp)"
    have "fst (stream_loop c um upd (Yield ev rest) resp) =
            ?fu @ (PutMessage None # PutDone upd # ?es)"
      unfolding stream_loop_completed_event [OF True] by (simp add: case_prod_beta)
    then have "?fu @ (PutMessage None # PutDone upd # ?es) = xs @ PutMessage None # ys"
      using Yield.prems by simp
    then obtain xs2 where xs: "xs = ?fu @ xs2"
      and tail: "PutMessage None # PutDone upd # ?es = xs2 @ PutMessage None # ys"
      using split_at_sentinel_left [OF _ no_sentinel_stream_follow_up] by blast
    show ?thesis
    proof (cases xs2)
      case Nil
      then have "xs = [] @ ?fu" using xs by simp
      then show ?thesis by blast
    next
      case (Cons x xs3)
      then have t3: "PutDone upd # ?es = xs3 @ PutMessage None # ys" and x: "x = PutMessage None"
        using tail by simp_all
      show ?thesis
      proof (cases xs3)
        case Nil
        then show ?thesis using t3 by simp
      next
        case (Cons y xs4)
        then have y: "y = PutDone upd" and es: "?es = xs4 @ PutMessage None # ys"
          using t3 by simp_all
        obtain xs' resp' where "xs4 = xs' @ stream_follow_up c um resp'"
          using Yield.IH [OF es] by blast
        then have "xs = (?fu @ PutMessage None # PutDone upd # xs') @ stream_follow_up c um resp'"
          using xs \<open>xs2 = x # xs3\<close> Cons x y by simp
        then show ?thesis by blast
      qed
    qed
  qed
qed

lemma sentinel_after_follow_up:
  assumes "stream_events c aid um upd = xs @ PutMessage None # ys"
  shows "\<exists>xs' resp. xs = xs' @ stream_follow_up c um resp"
proof (cases "create_and_run c aid um")
  case (Inl e)
  then have "stream_events c aid um upd =
      [SetProcessing True, PutMessage (Some (stream_error e)), SetProcessing False]"
    by (simp add: stream_events_def)
  then have "PutMessage None \<in> set [SetProcessing True, PutMessage (Some (stream_error e)), SetProcessing False]"
    using assms by (metis in_set_conv_decomp)
  then show ?thesis by simp
next
  case (Inr st)
  obtain es r where loop: "stream_loop c um upd st [] = (es, r)"
    by (cases "stream_loop c um upd st []")
  define tail where "tail = (case r of None \<Rightarrow> [] | Some e \<Rightarrow> [PutMessage (Some (stream_error e))]) @ [SetProcessing False]"
  have tail: "PutMessage None \<notin> set tail"
    by (cases r) (simp_all add: tail_def)
  have "stream_events c aid um upd =
          [SetProcessing True, PutMessage (Some (answers_separator um))] @ (es @ tail)"
    using Inr loop by (cases r) (simp_all add: stream_events_def tail_def)
  then have "[SetProcessing True, PutMessage (Some (answers_separator um))] @ (es @ tail) =
          xs @ PutMessage None # ys"
    using assms by simp
  then obtain xs2 where xs: "xs = [SetProcessing True, PutMessage (Some (answers_separator um))] @ xs2"
    and rest: "es @ tail = xs2 @ PutMessage None # ys"
    using split_at_sentinel_left [of "[SetProcessing True, PutMessage (Some (answers_separator um))]"
        "es @ tail" xs ys] by auto
  obtain ys2 where "es = xs2 @ PutMessage None # ys2"
    using split_at_sentinel_right [OF rest tail] by blast
  then have "fst (stream_loop c um upd st []) = xs2 @ PutMessage None # ys2"
    using loop by simp
  then obtain xs' resp' where "xs2 = xs' @ stream_follow_up c um resp'"
    using sentinel_after_follow_up_loop by blast
  then have "xs = ([SetProcessing True, PutMessage (Some (answers_separator um))] @ xs') @
      stream_follow_up c um resp'"
    using xs by simp
  then show ?thesis by blast
qed

text \<open>
  Claim C2, amended. For every request, each end-of-stream sentinel is put only after
  a follow-up run has put its chunks, the follow-up separator first. For a request whose
  primary stream carries exactly one \<open>thread.message.completed\<close> event, with every text
  delta before it (other events may come anywhere), and whose follow-up stream ends
  normally, the message queue receives, in this order: the separator of the answer, one
  text chunk per delta (for instance \<open>The\<close>, \<open>answer\<close>, \<open>is 42\<close>), the separator of the
  follow-up, the follow-up texts in stream order, and the end-of-stream sentinel last.
\<close>

theorem order_preservation:
  "(\<forall>xs ys. stream_events c assistant_id user_message upd = xs @ PutMessage None # ys \<longrightarrow>
      (\<exists>xs' resp. xs = xs' @ stream_follow_up c user_message resp \<and>
         hd (stream_follow_up c user_message resp) =
           PutMessage (Some ''\<newline>\<newline>Possible Follow-up Questions and Answers:\<newline>______________________________________\<newline>\<newline>'')))
   \<and> (create_and_run c assistant_id user_message = Inr (yields (pre @ [done_ev] @ post) Stop) \<and>
       event done_ev = ''thread.message.completed'' \<and>
       (\<forall>ev\<in>set pre. event ev \<noteq> ''thread.message.completed'') \<and>
       (\<forall>ev\<in>set post. event ev \<noteq> ''thread.message.completed'' \<and> event_texts ev = []) \<and>
       chat_completions_create c (follow_up_messages user_message (concat (delta_texts pre))) =
         Inr (yields chunks Stop) \<and>
       (\<forall>ch\<in>set chunks. ch \<noteq> [])
       \<longrightarrow>
       message_queue (run_effects (stream_events c assistant_id user_message upd) s) =
         message_queue s @
         [Some (''\<newline>\<newline>Answers for '' @ user_message @
                '':\<newline>______________________________________\<newline>\<newline>'')] @
         map Some (delta_texts pre) @
         [Some ''\<newline>\<newline>Possible Follow-up Questions and Answers:\<newline>______________________________________\<newline>\<newline>''] @
         map Some (chunk_texts chunks) @ [None])"
proof (intro conjI allI impI)
  fix xs ys
  assume "stream_events c assistant_id user_message upd = xs @ PutMessage None # ys"
  then obtain xs' resp where "xs = xs' @ stream_follow_up c user_message resp"
    using sentinel_after_follow_up by blast
  moreover have "hd (stream_follow_up c user_message resp) =
      PutMessage (Some ''\<newline>\<newline>Possible Follow-up Questions and Answers:\<newline>______________________________________\<newline>\<newline>'')"
    by (simp add: stream_follow_up_def follow_up_separator_def)
  ultimately show "\<exists>xs' resp. xs = xs' @ stream_follow_up c user_message resp \<and>
         hd (stream_follow_up c user_message resp) =
           PutMessage (Some ''\<newline>\<newline>Possible Follow-up Questions and Answers:\<newline>______________________________________\<newline>\<newline>'')"
    by blast
next
  assume h: "create_and_run c assistant_id user_message = Inr (yields (pre @ [done_ev] @ post) Stop) \<and>
       event done_ev = ''thread.message.completed'' \<and>
       (\<forall>ev\<in>set pre. event ev \<noteq> ''thread.message.completed'') \<and>
       (\<forall>ev\<in>set post. event ev \<noteq> ''thread.message.completed'' \<and> event_texts ev = []) \<and>
       chat_completions_create c (follow_up_messages user_message (concat (delta_texts pre))) =
         Inr (yields chunks Stop) \<and>
       (\<forall>ch\<in>set chunks. ch \<noteq> [])"
  then have primary: "create_and_run c assistant_id user_message = Inr (yields (pre @ [done_ev] @ post) Stop)"
    and completed: "event done_ev = ''thread.message.completed''"
    and before: "\<forall>ev\<in>set pre. event ev \<noteq> ''thread.message.completed''"
    and after: "\<forall>ev\<in>set post. event ev \<noteq> ''thread.message.completed'' \<and> event_texts ev = []"
    and secondary: "chat_completions_create c (follow_up_messages user_message (concat (delta_texts pre))) =
         Inr (yields chunks Stop)"
    and choices: "\<forall>ch\<in>set chunks. ch \<noteq> []"
    by blast+
  have "stream_events c assistant_id user_message upd =
          [SetProcessing True, put_text (answers_separator user_message)] @
          map put_text (delta_texts pre) @
          (put_text follow_up_separator # map put_text (chunk_texts chunks)) @
          [PutMessage None, PutDone upd, SetProcessing False]"
    using stream_events_one_completed [OF primary completed before after]
      stream_follow_up_ok [OF secondary choices] by simp
  then show "message_queue (run_effects (stream_events c assistant_id user_message upd) s) =
         message_queue s @
         [Some (''\<newline>\<newline>Answers for '' @ user_message @
                '':\<newline>______________________________________\<newline>\<newline>'')] @
         map Some (delta_texts pre) @
         [Some ''\<newline>\<newline>Possible Follow-up Questions and Answers:\<newline>______________________________________\<newline>\<newline>''] @
         map Some (chunk_texts chunks) @ [None]"
    by (simp add: message_queue_run_effects put_text_def answers_separator_def
        follow_up_separator_def)
qed

theorem order_preservation_witness:
  "message_queue (run_effects
      (stream_events
         (const_client
            (Inr (yields
               ([\<lparr>event = ''thread.run.created'', data_delta = None\<rparr>,
                 text_delta ''The'', text_delta '' answer'',
                 \<lparr>event = ''thread.message.delta'', data_delta = Some None\<rparr>,
                 text_delta '' is 42''] @
                [\<lparr>event = ''thread.message.completed'', data_delta = None\<rparr>] @
                [\<lparr>event = ''thread.run.completed'', data_delta = None\<rparr>]) Stop))
            (Inr (yields [[Some ''Why 42?''], [None], [Some [], Some ''x''], [Some '' Because.'']] Stop)))
         ''asst_1'' ''What?'' \<lparr>update_id = 7, message_text = ''What?''\<rparr>)
      init_bot) =
   [Some ''\<newline>\<newline>Answers for What?:\<newline>______________________________________\<newline>\<newline>'',
    Some ''The'', Some '' answer'', Some '' is 42'',
    Some ''\<newline>\<newline>Possible Follow-up Questions and Answers:\<newline>______________________________________\<newline>\<newline>'',
    Some ''Why 42?'', Some '' Because.'', None]"
proof -
  let ?pre = "[\<lparr>event = ''thread.run.created'', data_delta = None\<rparr>,
                 text_delta ''The'', text_delta '' answer'',
                 \<lparr>event = ''thread.message.delta'', data_delta = Some None\<rparr>,
                 text_delta '' is 42'']"
  let ?done = "\<lparr>event = ''thread.message.completed'', data_delta = None\<rparr>"
  let ?post = "[\<lparr>event = ''thread.run.completed'', data_delta = None\<rparr>]"
  let ?chunks = "[[Some ''Why 42?''], [None], [Some [], Some ''x''], [Some '' Because.'']]"
  let ?c = "const_client (Inr (yields (?pre @ [?done] @ ?post) Stop)) (Inr (yields ?chunks Stop))"
  have p: "create_and_run ?c ''asst_1'' ''What?'' = Inr (yields (?pre @ [?done] @ ?post) Stop)"
    by (simp add: const_client_def)
  have d: "event ?done = ''thread.message.completed''" by simp
  have b: "\<forall>ev\<in>set ?pre. event ev \<noteq> ''thread.message.completed''"
    by (simp add: text_delta_def)
  have a: "\<forall>ev\<in>set ?post. event ev \<noteq> ''thread.message.completed'' \<and> event_texts ev = []"
    by (simp add: event_texts_def)
  have f: "chat_completions_create ?c (follow_up_messages ''What?'' (concat (delta_texts ?pre))) =
      Inr (yields ?chunks Stop)"
    by (simp add: const_client_def)
  have ch: "\<forall>ch\<in>set ?chunks. ch \<noteq> []" by simp
  have dt: "delta_texts ?pre = [''The'', '' answer'', '' is 42'']"
    by (simp add: delta_texts_def event_texts_def text_delta_def block_texts_def)
  have "message_queue (run_effects (stream_events ?c ''asst_1'' ''What?''
            \<lparr>update_id = 7, message_text = ''What?''\<rparr>) init_bot) =
         message_queue init_bot @
         [Some (''\<newline>\<newline>Answers for '' @ ''What?'' @
                '':\<newline>______________________________________\<newline>\<newline>'')] @
         map Some (delta_texts ?pre) @
         [Some ''\<newline>\<newline>Possible Follow-up Questions and Answers:\<newline>______________________________________\<newline>\<newline>''] @
         map Some (chunk_texts ?chunks) @ [None]"
    using order_preservation [of ?c "''asst_1''" "''What?''"
        "\<lparr>update_id = 7, message_text = ''What?''\<rparr>" ?pre ?done ?post ?chunks init_bot]
      p d b a f ch by blast
  then show ?thesis
    unfolding dt by (simp add: init_bot_def)
qed

text \<open>
  Claim C2 as stated fails when the deltas are spread over two messages of one run: the
  loop has no \<open>break\<close>, so every \<open>thread.message.completed\<close> event starts a follow-up
  and puts a sentinel, and the first sentinel comes before the later text chunks.
\<close>

theorem sentinel_before_later_deltas:
  "put_messages (stream_events
      (const_client
         (Inr (yields [text_delta ''The'', message_completed,
                       text_delta '' answer'', text_delta '' is 42'', message_completed] Stop))
         (Inr (yields [[Some ''Why?'']] Stop)))
      ''asst_1'' ''What?'' \<lparr>update_id = 7, message_text = ''What?''\<rparr>) =
   [Some ''\<newline>\<newline>Answers for What?:\<newline>______________________________________\<newline>\<newline>'',
    Some ''The'',
    Some ''\<newline>\<newline>Possible Follow-up Questions and Answers:\<newline>______________________________________\<newline>\<newline>'',
    Some ''Why?'', None,
    Some '' answer'', Some '' is 42'',
    Some ''\<newline>\<newline>Possible Follow-up Questions and Answers:\<newline>______________________________________\<newline>\<newline>'',
    Some ''Why?'', None]"
  by (simp add: stream_events_def const_client_def stream_follow_up_def text_delta_def
      message_completed_def answers_separator_def follow_up_separator_def)

subsection \<open>The gate is released on every exit path\<close>

text \<open>
  Claim C5. Whatever the completion service does (normal completion, an error of the
  primary stream, an error of the follow-up), \<open>stream_events\<close> writes the flag
  \<open>is_processing\<close> twice: \<open>True\<close> on entry and \<open>False\<close> exactly once, as its last effect.
  After a run of \<open>stream_events\<close> the gate is not held.
\<close>

theorem gate_released_exactly_once:
  "gate_writes (stream_events c assistant_id user_message upd) = [True, False]
   \<and> last (stream_events c assistant_id user_message upd) = SetProcessing False
   \<and> \<not> is_processing (run_effects (stream_events c assistant_id user_message upd) s)"
proof -
  let ?es = "stream_events c assistant_id user_message upd"
  have gw: "gate_writes ?es = [True, False]"
  proof (cases "create_and_run c assistant_id user_message")
    case (Inl e)
    then show ?thesis by (simp add: stream_events_def)
  next
    case (Inr stream)
    obtain es r where loop: "stream_loop c user_message upd stream [] = (es, r)"
      by (cases "stream_loop c user_message upd stream []")
    have "gate_writes es = []"
      using gate_writes_stream_loop [of c user_message upd stream "[]"] loop by simp
    then show ?thesis
      using Inr loop by (cases r) (simp_all add: stream_events_def)
  qed
  have "last ?es = SetProcessing False"
    by (simp add: stream_events_def)
  moreover have "\<not> is_processing (run_effects ?es s)"
    by (simp add: is_processing_run_effects gw)
  ultimately show ?thesis using gw by simp
qed

subsection \<open>A failing primary stream\<close>

lemma stream_events_raises:
  assumes "create_and_run c aid um = Inr (yields evs (Raise e))"
  shows "stream_events c aid um upd =
           [SetProcessing True, put_text (answers_separator um)] @
           fst (stream_loop c um upd (yields evs (Raise e)) []) @
           [put_text (stream_error e), SetProcessing False]"
proof -
  obtain es r where loop: "stream_loop c um upd (yields evs (Raise e)) [] = (es, r)"
    by (cases "stream_loop c um upd (yields evs (Raise e)) []")
  then have "r = Some e"
    using stream_loop_raise_result [of c um upd evs e "[]"] by simp
  then show ?thesis
    using assms loop by (simp add: stream_events_def put_text_def)
qed

text \<open>
  Claim C3, amended. Whenever the primary call fails (while the stream is set up, or
  while it is iterated, after the events \<open>evs\<close>), \<open>stream_events\<close> puts the error chunk
  on the message queue as its last message. If no \<open>thread.message.completed\<close> event was
  received before the failure, it puts no end-of-stream sentinel and nothing on the done
  queue, so the next run of \<open>check_done_queue\<close> sends no reply for this request.
\<close>

theorem no_signal_on_primary_error:
  assumes fails:
    "(create_and_run c assistant_id user_message = Inl e \<and> evs = []) \<or>
     create_and_run c assistant_id user_message = Inr (yields evs (Raise e))"
  shows "last (put_messages (stream_events c assistant_id user_message upd)) =
           Some (''An error occurred: '' @ e)
       \<and> ((\<forall>ev\<in>set evs. event ev \<noteq> ''thread.message.completed'') \<longrightarrow>
            None \<notin> set (put_messages (stream_events c assistant_id user_message upd))
          \<and> put_dones (stream_events c assistant_id user_message upd) = []
          \<and> done_queue (run_effects (stream_events c assistant_id user_message upd) s) =
              done_queue s
          \<and> replies (check_done_queue
                (run_effects (stream_events c assistant_id user_message upd) s)) =
              replies (check_done_queue s))"
proof -
  let ?es = "stream_events c assistant_id user_message upd"
  have "\<exists>body. ?es = SetProcessing True # body @ [put_text (stream_error e), SetProcessing False]
          \<and> ((\<forall>ev\<in>set evs. event ev \<noteq> ''thread.message.completed'') \<longrightarrow>
               (\<exists>ts. body = map put_text ts))"
    using fails
  proof
    assume "create_and_run c assistant_id user_message = Inl e \<and> evs = []"
    then have "?es = SetProcessing True # [] @ [put_text (stream_error e), SetProcessing False]"
      by (simp add: stream_events_def put_text_def)
    moreover have "[] = map put_text []" by simp
    ultimately show ?thesis by blast
  next
    assume run: "create_and_run c assistant_id user_message = Inr (yields evs (Raise e))"
    let ?body = "put_text (answers_separator user_message) #
        fst (stream_loop c user_message upd (yields evs (Raise e)) [])"
    have 1: "?es = SetProcessing True # ?body @ [put_text (stream_error e), SetProcessing False]"
      using stream_events_raises [OF run] by simp
    have 2: "\<exists>ts. ?body = map put_text ts"
      if nc: "\<forall>ev\<in>set evs. event ev \<noteq> ''thread.message.completed''"
    proof -
      have "fst (stream_loop c user_message upd (yields evs (Raise e)) []) =
              map put_text (delta_texts evs)"
        unfolding stream_loop_before_completed [OF nc] by simp
      then have "?body = map put_text (answers_separator user_message # delta_texts evs)"
        by simp
      then show ?thesis by (rule exI)
    qed
    show ?thesis
    proof (rule exI [of _ ?body], intro conjI impI)
      show "?es = SetProcessing True # ?body @ [put_text (stream_error e), SetProcessing False]"
        by (rule 1)
    next
      assume "\<forall>ev\<in>set evs. event ev \<noteq> ''thread.message.completed''"
      then show "\<exists>ts. ?body = map put_text ts" by (rule 2)
    qed
  qed
  then obtain body where es: "?es = SetProcessing True # body @ [put_text (stream_error e), SetProcessing False]"
    and texts: "(\<forall>ev\<in>set evs. event ev \<noteq> ''thread.message.completed'') \<longrightarrow>
               (\<exists>ts. body = map put_text ts)"
    by blast
  have last: "last (put_messages ?es) = Some (''An error occurred: '' @ e)"
    by (simp add: es put_text_def stream_error_def)
  have rest: "None \<notin> set (put_messages ?es) \<and> put_dones ?es = []
      \<and> done_queue (run_effects ?es s) = done_queue s
      \<and> replies (check_done_queue (run_effects ?es s)) = replies (check_done_queue s)"
    if nc: "\<forall>ev\<in>set evs. event ev \<noteq> ''thread.message.completed''"
  proof -
    obtain ts where body: "body = map put_text ts" using texts nc by blast
    have pm: "put_messages ?es = map Some ts @ [Some (stream_error e)]"
      by (simp add: es body put_text_def)
    have pd: "put_dones ?es = []"
      by (simp add: es body put_text_def)
    have "None \<notin> set (put_messages ?es)" by (auto simp: pm)
    moreover have "done_queue (run_effects ?es s) = done_queue s"
      by (simp add: done_queue_run_effects pd)
    moreover have "replies (check_done_queue (run_effects ?es s)) = replies (check_done_queue s)"
      by (simp add: check_done_queue_def done_queue_run_effects pd replies_run_effects)
    ultimately show ?thesis using pd by simp
  qed
  show ?thesis using last rest by blast
qed

theorem no_signal_on_primary_error_witness:
  "last (put_messages (stream_events
      (const_client (Inr (yields [text_delta ''The'', text_delta '' answer''] (Raise ''connection lost'')))
         (Inr Stop))
      ''asst_1'' ''q'' \<lparr>update_id = 7, message_text = ''q''\<rparr>)) =
     Some ''An error occurred: connection lost''
   \<and> None \<notin> set (put_messages (stream_events
      (const_client (Inr (yields [text_delta ''The'', text_delta '' answer''] (Raise ''connection lost'')))
         (Inr Stop))
      ''asst_1'' ''q'' \<lparr>update_id = 7, message_text = ''q''\<rparr>))
   \<and> put_dones (stream_events
      (const_client (Inr (yields [text_delta ''The'', text_delta '' answer''] (Raise ''connection lost'')))
         (Inr Stop))
      ''asst_1'' ''q'' \<lparr>update_id = 7, message_text = ''q''\<rparr>) = []
   \<and> last (put_messages (stream_events (const_client (Inl ''no route'') (Inr Stop))
      ''asst_1'' ''q'' \<lparr>update_id = 7, message_text = ''q''\<rparr>)) =
     Some ''An error occurred: no route''
   \<and> last (put_messages (stream_events
      (const_client (Inr (yields [text_delta ''42'', message_completed] (Raise ''connection lost'')))
         (Inr Stop))
      ''asst_1'' ''q'' \<lparr>update_id = 7, message_text = ''q''\<rparr>)) =
     Some ''An error occurred: connection lost''"
proof -
  let ?u = "\<lparr>update_id = 7, message_text = ''q''\<rparr>"
  let ?evs = "[text_delta ''The'', text_delta '' answer'']"
  let ?c = "const_client (Inr (yields ?evs (Raise ''connection lost''))) (Inr Stop)"
  let ?c2 = "const_client (Inl ''no route'') (Inr Stop)"
  let ?evs3 = "[text_delta ''42'', message_completed]"
  let ?c3 = "const_client (Inr (yields ?evs3 (Raise ''connection lost''))) (Inr Stop)"
  have h: "(create_and_run ?c ''asst_1'' ''q'' = Inl ''connection lost'' \<and> ?evs = []) \<or>
     create_and_run ?c ''asst_1'' ''q'' = Inr (yields ?evs (Raise ''connection lost''))"
    by (simp add: const_client_def)
  have nc: "\<forall>ev\<in>set ?evs. event ev \<noteq> ''thread.message.completed''"
    by (simp add: text_delta_def)
  have h2: "(create_and_run ?c2 ''asst_1'' ''q'' = Inl ''no route'' \<and> ([]::stream_event list) = []) \<or>
     create_and_run ?c2 ''asst_1'' ''q'' = Inr (yields [] (Raise ''no route''))"
    by (simp add: const_client_def)
  have h3: "(create_and_run ?c3 ''asst_1'' ''q'' = Inl ''connection lost'' \<and> ?evs3 = []) \<or>
     create_and_run ?c3 ''asst_1'' ''q'' = Inr (yields ?evs3 (Raise ''connection lost''))"
    by (simp add: const_client_def)
  show ?thesis
    using no_signal_on_primary_error [OF h, of ?u init_bot] nc
      no_signal_on_primary_error [OF h2, of ?u init_bot]
      no_signal_on_primary_error [OF h3, of ?u init_bot]
    by simp
qed

text \<open>
  Claim C3 as stated fails when the stream raises after a \<open>thread.message.completed\<close>
  event: the loop has no \<open>break\<close>, so the sentinel and the completion signal are
  already queued when the error chunk is put.
\<close>

theorem signal_after_late_primary_error:
  "stream_events
     (const_client (Inr (yields [text_delta ''42'', message_completed] (Raise ''connection lost'')))
        (Inr (yields [[Some ''Why?'']] Stop)))
     ''asst_1'' ''q'' \<lparr>update_id = 7, message_text = ''q''\<rparr> =
   [SetProcessing True, PutMessage (Some (answers_separator ''q'')), PutMessage (Some ''42''),
    PutMessage (Some follow_up_separator), PutMessage (Some ''Why?''),
    PutMessage None, PutDone \<lparr>update_id = 7, message_text = ''q''\<rparr>,
    PutMessage (Some ''An error occurred: connection lost''), SetProcessing False]"
  by (simp add: stream_events_def const_client_def stream_follow_up_def text_delta_def
      message_completed_def stream_error_def)

subsection \<open>A failing follow-up\<close>






subsection \<open>The dispatcher while the gate is held\<close>

text \<open>Nothing a handler or a worker does depends on the replies sent before.\<close>

lemma forget_replies_handle_message:
  "forget_replies (handle_message upd s) = forget_replies (handle_message upd (forget_replies s))"
  by (simp add: handle_message_def forget_replies_def start_streaming_def Let_def)

lemma forget_replies_perform: "forget_replies (perform e s) = perform e (forget_replies s)"
  by (cases e) (simp_all add: forget_replies_def)

lemma stream_threads_forget_replies [simp]: "stream_threads (forget_replies s) = stream_threads s"
  by (simp add: forget_replies_def)

lemma forget_replies_idem [simp]: "forget_replies (forget_replies s) = forget_replies s"
  by (simp add: forget_replies_def)

lemma forget_replies_stream_threads_update:
  "forget_replies (s\<lparr>stream_threads := ts\<rparr>) = (forget_replies s)\<lparr>stream_threads := ts\<rparr>"
  by (simp add: forget_replies_def)

lemma forget_replies_worker_step:
  "forget_replies (worker_step c aid i s) = forget_replies (worker_step c aid i (forget_replies s))"
proof (cases "i < length (stream_threads s)")
  case False
  then show ?thesis by (simp add: worker_step_def)
next
  case True
  let ?t = "stream_threads s ! i"
  let ?prog = "stream_events c aid (thread_user_message ?t) (thread_update ?t)"
  show ?thesis
  proof (cases "thread_pc ?t < length ?prog")
    case False
    then show ?thesis using True by (simp add: worker_step_def Let_def)
  next
    case pc: True
    have "worker_step c aid i s =
            perform (?prog ! thread_pc ?t)
              (s\<lparr>stream_threads := (stream_threads s)[i := ?t\<lparr>thread_pc := Suc (thread_pc ?t)\<rparr>]\<rparr>)"
      using True pc by (simp add: worker_step_def Let_def)
    moreover have "worker_step c aid i (forget_replies s) =
            perform (?prog ! thread_pc ?t)
              ((forget_replies s)\<lparr>stream_threads := (stream_threads s)[i := ?t\<lparr>thread_pc := Suc (thread_pc ?t)\<rparr>]\<rparr>)"
      using True pc by (simp add: worker_step_def Let_def)
    ultimately show ?thesis
      by (simp add: forget_replies_perform forget_replies_stream_threads_update)
  qed
qed

lemma forget_replies_sched_step:
  "forget_replies (sched_step c aid x s) = forget_replies (sched_step c aid x (forget_replies s))"
proof (cases x)
  case (Dispatch upd)
  show ?thesis unfolding Dispatch sched_step.simps by (rule forget_replies_handle_message)
next
  case (WorkerStep i)
  show ?thesis unfolding WorkerStep sched_step.simps by (rule forget_replies_worker_step)
qed

lemma forget_replies_run_schedule:
  "forget_replies s = forget_replies s' \<Longrightarrow>
   forget_replies (run_schedule c aid sch s) = forget_replies (run_schedule c aid sch s')"
proof (induction sch arbitrary: s s')
  case Nil
  then show ?case by simp
next
  case (Cons x sch)
  have "forget_replies (sched_step c aid x s) =
          forget_replies (sched_step c aid x (forget_replies s))"
    by (rule forget_replies_sched_step)
  also have "\<dots> = forget_replies (sched_step c aid x (forget_replies s'))"
    using Cons.prems by simp
  also have "\<dots> = forget_replies (sched_step c aid x s')"
    by (rule forget_replies_sched_step [symmetric])
  finally have "forget_replies (sched_step c aid x s) = forget_replies (sched_step c aid x s')" .
  then have "forget_replies (run_schedule c aid sch (sched_step c aid x s)) =
             forget_replies (run_schedule c aid sch (sched_step c aid x s'))"
    by (rule Cons.IH)
  then show ?case by simp
qed

text \<open>
  Claim C6. While the gate is held, \<open>handle_message\<close> sends the reply that the bot is
  still processing and does nothing else: no thread is started and the message queue is
  untouched. Whatever the handler and the workers do afterwards, the run differs from the
  run without this message in the replies sent only: the message is dropped, not queued.
\<close>

theorem gate_held_rejection:
  assumes "is_processing s"
  shows "handle_message upd s =
           s\<lparr>replies := replies s @ [(upd, ''I'm still processing the previous request. Please wait.'')]\<rparr>
       \<and> stream_threads (handle_message upd s) = stream_threads s
       \<and> message_queue (handle_message upd s) = message_queue s
       \<and> forget_replies (run_schedule c assistant_id sch (handle_message upd s)) =
           forget_replies (run_schedule c assistant_id sch s)"
proof -
  have hm: "handle_message upd s =
           s\<lparr>replies := replies s @ [(upd, ''I'm still processing the previous request. Please wait.'')]\<rparr>"
    using assms by (simp add: handle_message_def)
  have "forget_replies (handle_message upd s) = forget_replies s"
    by (simp add: hm forget_replies_def)
  then have "forget_replies (run_schedule c assistant_id sch (handle_message upd s)) =
           forget_replies (run_schedule c assistant_id sch s)"
    by (rule forget_replies_run_schedule)
  then show ?thesis using hm by simp
qed

theorem gate_held_rejection_witness:
  "handle_message \<lparr>update_id = 8, message_text = ''second''\<rparr>
     (worker_step echo_client ''asst_1'' 0
        (handle_message \<lparr>update_id = 7, message_text = ''first''\<rparr> init_bot)) =
   \<lparr>is_processing = True, root = None, text_display = None, message_queue = [],
     done_queue = [],
     stream_threads = [\<lparr>thread_user_message = ''first'',
        thread_update = \<lparr>update_id = 7, message_text = ''first''\<rparr>, thread_pc = 1\<rparr>],
     gui_threads = 1,
     replies = [(\<lparr>update_id = 7, message_text = ''first''\<rparr>, ''Processing your request...''),
                (\<lparr>update_id = 8, message_text = ''second''\<rparr>,
                 ''I'm still processing the previous request. Please wait.'')]\<rparr>"
proof -
  let ?s = "worker_step echo_client ''asst_1'' 0
        (handle_message \<lparr>update_id = 7, message_text = ''first''\<rparr> init_bot)"
  have s: "?s = \<lparr>is_processing = True, root = None, text_display = None, message_queue = [],
     done_queue = [],
     stream_threads = [\<lparr>thread_user_message = ''first'',
        thread_update = \<lparr>update_id = 7, message_text = ''first''\<rparr>, thread_pc = 1\<rparr>],
     gui_threads = 1,
     replies = [(\<lparr>update_id = 7, message_text = ''first''\<rparr>, ''Processing your request...'')]\<rparr>"
    by (simp add: worker_step_def handle_message_def init_bot_def start_streaming_def
        stream_events_def Let_def)
  then have "is_processing ?s" by simp
  from gate_held_rejection [OF this, of "\<lparr>update_id = 8, message_text = ''second''\<rparr>" echo_client "''asst_1''" "[]"]
  show ?thesis by (simp add: s)
qed

subsection \<open>The drain pass of the display\<close>

lemma fst_gui_loop:
  "fst (gui_loop ok q) = drop 1 (dropWhile (\<lambda>m. \<not> stops_drain m) q)"
  by (induction ok q rule: gui_loop.induct) (auto split: prod.splits)

lemma surface_ok_text_step [simp]:
  "surface_ok (s\<lparr>message_queue := q, text_display := map_option f (text_display s)\<rparr>) = surface_ok s"
  by (simp add: surface_ok_def)

lemma update_gui_text_step:
  assumes "message_queue s = Some msg # q" and "\<not> startswith msg ''An error occurred:''"
  shows "update_gui s =
           update_gui (s\<lparr>message_queue := q,
             text_display := map_option (\<lambda>d. d @ (if surface_ok s then render_text msg else []))
                               (text_display s)\<rparr>)"
proof -
  obtain q' ops where loop: "gui_loop (surface_ok s) q = (q', ops)"
    by (cases "gui_loop (surface_ok s) q")
  have "gui_loop (surface_ok s) (message_queue s) =
          (q', (if surface_ok s then render_text msg else []) @ ops)"
    using assms loop by simp
  then show ?thesis
    using loop by (simp add: update_gui_def option.map_comp comp_def)
qed

text \<open>
  Claim C7, amended. A polling cycle never blocks and takes from the message queue
  every event up to and including the first one that is the end-of-stream sentinel or a
  message starting with \<open>An error occurred:\<close>; with no such event it empties the
  queue. The cycle does not close the window, and it schedules the next cycle after 100 ms
  if and only if the window exists.
\<close>

theorem drain_pass:
  "message_queue (update_gui s) = drop 1 (dropWhile (\<lambda>m. \<not> stops_drain m) (message_queue s))
   \<and> map_option winfo_exists (root (update_gui s)) = map_option winfo_exists (root s)
   \<and> scheduled (update_gui s) = scheduled s @ (if window_exists s then [100] else [])"
proof -
  obtain q ops where loop: "gui_loop (surface_ok s) (message_queue s) = (q, ops)"
    by (cases "gui_loop (surface_ok s) (message_queue s)")
  have "q = drop 1 (dropWhile (\<lambda>m. \<not> stops_drain m) (message_queue s))"
    using fst_gui_loop [of "surface_ok s" "message_queue s"] loop by simp
  then have 1: "message_queue (update_gui s) =
      drop 1 (dropWhile (\<lambda>m. \<not> stops_drain m) (message_queue s))"
    using loop by (simp add: update_gui_def)
  have 2: "map_option winfo_exists (root (update_gui s)) = map_option winfo_exists (root s)"
    using loop by (simp add: update_gui_def split: option.splits)
  have 3: "scheduled (update_gui s) = scheduled s @ (if window_exists s then [100] else [])"
    using loop by (simp add: update_gui_def scheduled_def window_exists_def split: option.splits)
  show ?thesis using 1 2 3 by simp
qed

theorem drain_pass_witness:
  "message_queue (update_gui (active_bot
      [Some ''a'', Some ''An error occurred: x'', Some ''b'', None, Some ''c''])) =
     [Some ''b'', None, Some ''c'']
   \<and> message_queue (update_gui (active_bot [Some ''a'', None, Some ''c''])) = [Some ''c'']
   \<and> message_queue (update_gui (active_bot [Some ''a'', Some ''c''])) = []
   \<and> scheduled (update_gui (active_bot [Some ''a'', Some ''c''])) = [100]
   \<and> scheduled (update_gui init_bot) = []"
proof -
  have 1: "message_queue (update_gui (active_bot
      [Some ''a'', Some ''An error occurred: x'', Some ''b'', None, Some ''c''])) =
     [Some ''b'', None, Some ''c'']"
    using drain_pass [of "active_bot [Some ''a'', Some ''An error occurred: x'', Some ''b'', None, Some ''c'']"]
    by (simp add: active_bot_def init_bot_def)
  have 2: "message_queue (update_gui (active_bot [Some ''a'', None, Some ''c''])) = [Some ''c'']"
    using drain_pass [of "active_bot [Some ''a'', None, Some ''c'']"]
    by (simp add: active_bot_def init_bot_def)
  have 3: "message_queue (update_gui (active_bot [Some ''a'', Some ''c''])) = []
    \<and> scheduled (update_gui (active_bot [Some ''a'', Some ''c''])) = [100]"
    using drain_pass [of "active_bot [Some ''a'', Some ''c'']"]
    by (simp add: active_bot_def init_bot_def scheduled_def window_exists_def)
  have 4: "scheduled (update_gui init_bot) = []"
    using drain_pass [of init_bot]
    by (simp add: init_bot_def scheduled_def window_exists_def)
  show ?thesis using 1 2 3 4 by simp
qed

text \<open>
  Claim C7 as stated fails: with no sentinel in the queue, a pass that meets an error
  chunk leaves the later events in the queue.
\<close>

theorem error_chunk_left_later_events:
  "message_queue (update_gui (active_bot [Some ''An error occurred: timeout'', Some ''late text''])) =
     [Some ''late text'']"
  by (simp add: update_gui_def active_bot_def init_bot_def)

subsection \<open>Error chunks on the display\<close>

lemma gui_loop_until_error:
  assumes "\<forall>t\<in>set pre. \<not> startswith t ''An error occurred:''"
    and "startswith msg ''An error occurred:''"
  shows "gui_loop ok (map Some pre @ Some msg # q) =
           (q, if ok then concat (map render_text pre) @ render_error msg else [])"
  using assms by (induction pre) (simp_all del: startswith.simps)

text \<open>
  Claim C8. When a message that the pass reaches (after text chunks \<open>pre\<close>) starts
  with \<open>An error occurred:\<close>, \<open>update_gui\<close> inserts it with \<open>ERROR:\<close> before it
  (on a surface that exists; nothing is rendered otherwise) and leaves the loop: the
  events behind it stay in the queue for a later cycle.
\<close>

theorem error_chunk_stops_drain:
  assumes queue: "message_queue s = map Some pre @ Some (''An error occurred:'' @ r) # q"
    and before: "\<forall>t\<in>set pre. \<not> startswith t ''An error occurred:''"
  shows "message_queue (update_gui s) = q
       \<and> text_display (update_gui s) =
           (if surface_ok s
            then map_option (\<lambda>d. d @ concat (map render_text pre) @
                   [Configure ''normal'',
                    Insert (''\<newline>ERROR: '' @ ''An error occurred:'' @ r @ ''\<newline>'') None,
                    Configure ''disabled'', See]) (text_display s)
            else text_display s)"
proof -
  have "startswith (''An error occurred:'' @ r) ''An error occurred:''"
    by (simp add: startswith_iff)
  then have "gui_loop (surface_ok s) (message_queue s) =
          (q, if surface_ok s
              then concat (map render_text pre) @ render_error (''An error occurred:'' @ r)
              else [])"
    unfolding queue by (rule gui_loop_until_error [OF before])
  then show ?thesis
    by (cases "text_display s") (simp_all add: update_gui_def render_error_def)
qed

theorem error_chunk_stops_drain_witness:
  "message_queue (update_gui (active_bot
      [Some ''so far'', Some ''An error occurred: timeout'', Some ''late'', None])) =
     [Some ''late'', None]
   \<and> text_display (update_gui (active_bot
      [Some ''so far'', Some ''An error occurred: timeout'', Some ''late'', None])) =
     Some [Configure ''normal'', Insert ''so far'' None, Configure ''disabled'',
           Configure ''normal'', Insert ''\<newline>ERROR: An error occurred: timeout\<newline>'' None,
           Configure ''disabled'', See]"
proof -
  have q: "message_queue (active_bot
      [Some ''so far'', Some ''An error occurred: timeout'', Some ''late'', None]) =
      map Some [''so far''] @ Some (''An error occurred:'' @ '' timeout'') # [Some ''late'', None]"
    by (simp add: active_bot_def init_bot_def)
  have b: "\<forall>t\<in>set [''so far'']. \<not> startswith t ''An error occurred:''"
    by simp
  show ?thesis
    using error_chunk_stops_drain [OF q b]
    by (simp add: active_bot_def init_bot_def surface_ok_def render_text_def)
qed

text \<open>The error chunk of the follow-up starts with a newline.\<close>

lemma follow_up_error_not_primary: "\<not> startswith (follow_up_error e) ''An error occurred:''"
  by (simp add: follow_up_error_def)

lemma inserted_render_text: "inserted (render_text msg) = [msg]"
  by (simp add: render_text_def)

text \<open>
  Claim C9. The error chunk that a failing \<open>stream_follow_up\<close> puts last starts with a
  newline, so it does not start with \<open>An error occurred:\<close>. \<open>update_gui\<close> treats
  it as a text chunk: it inserts the message as it is, with no \<open>ERROR:\<close> before it, and
  goes on with the rest of the queue.
\<close>

theorem follow_up_error_rendered_as_text:
  assumes fails:
      "(chat_completions_create c (follow_up_messages user_message resp) = Inl e \<and> chunks = []) \<or>
       (chat_completions_create c (follow_up_messages user_message resp) =
          Inr (yields chunks (Raise e)) \<and> (\<forall>ch\<in>set chunks. ch \<noteq> []))"
    and queue: "message_queue s = Some (follow_up_error e) # q"
  shows "last (stream_follow_up c user_message resp) = PutMessage (Some (follow_up_error e))
       \<and> hd (follow_up_error e) = CHR ''\<newline>''
       \<and> \<not> startswith (follow_up_error e) ''An error occurred:''
       \<and> update_gui s =
           update_gui (s\<lparr>message_queue := q,
             text_display :=
               map_option (\<lambda>d. d @ (if surface_ok s then render_text (follow_up_error e) else []))
                 (text_display s)\<rparr>)
       \<and> inserted (render_text (follow_up_error e)) = [follow_up_error e]"
proof -
  have "stream_follow_up c user_message resp =
          put_text follow_up_separator # map put_text (chunk_texts chunks) @
          [put_text (follow_up_error e)]"
    using fails
  proof
    assume "chat_completions_create c (follow_up_messages user_message resp) = Inl e \<and> chunks = []"
    then show ?thesis using stream_follow_up_setup_fails [of c user_message resp e] by simp
  next
    assume "chat_completions_create c (follow_up_messages user_message resp) =
          Inr (yields chunks (Raise e)) \<and> (\<forall>ch\<in>set chunks. ch \<noteq> [])"
    then show ?thesis using stream_follow_up_raises [of c user_message resp chunks e] by simp
  qed
  then have 1: "last (stream_follow_up c user_message resp) = PutMessage (Some (follow_up_error e))"
    by (simp add: put_text_def)
  have 2: "hd (follow_up_error e) = CHR ''\<newline>''"
    by (simp add: follow_up_error_def)
  have 3: "update_gui s =
           update_gui (s\<lparr>message_queue := q,
             text_display :=
               map_option (\<lambda>d. d @ (if surface_ok s then render_text (follow_up_error e) else []))
                 (text_display s)\<rparr>)"
    by (rule update_gui_text_step [OF queue follow_up_error_not_primary])
  show ?thesis
    using 1 2 3 follow_up_error_not_primary inserted_render_text by simp
qed

theorem follow_up_error_rendered_as_text_witness:
  "update_gui (active_bot [Some (follow_up_error ''rate limit''), Some ''late'', None, Some ''next'']) =
     init_bot\<lparr>root := Some \<lparr>winfo_exists = True, after_calls = [100]\<rparr>,
       text_display := Some [Configure ''normal'',
         Insert ''\<newline>An error occurred while generating follow-up: rate limit\<newline>'' None,
         Configure ''disabled'',
         Configure ''normal'', Insert ''late'' None, Configure ''disabled''],
       message_queue := [Some ''next'']\<rparr>"
proof -
  let ?c = "const_client (Inr Stop) (Inl ''rate limit'')"
  have f: "(chat_completions_create ?c (follow_up_messages ''q'' ''a'') = Inl ''rate limit'' \<and>
           ([]::chunk list) = []) \<or>
       (chat_completions_create ?c (follow_up_messages ''q'' ''a'') =
          Inr (yields [] (Raise ''rate limit'')) \<and> (\<forall>ch\<in>set ([]::chunk list). ch \<noteq> []))"
    by (simp add: const_client_def)
  have q: "message_queue (active_bot [Some (follow_up_error ''rate limit''), Some ''late'', None, Some ''next'']) =
      Some (follow_up_error ''rate limit'') # [Some ''late'', None, Some ''next'']"
    by (simp add: active_bot_def init_bot_def)
  show ?thesis
    using follow_up_error_rendered_as_text [OF f q]
    by (simp add: update_gui_def active_bot_def init_bot_def surface_ok_def render_text_def
        follow_up_error_def)
qed

subsection \<open>Separators on the display\<close>

text \<open>
  Claim C10, amended. A message taken from the queue that does not start with
  \<open>An error occurred:\<close> and contains \<open>Answers for\<close> or
  \<open>Possible Follow-up Questions and Answers\<close> anywhere is inserted with the tag
  \<open>separator\<close> and scrolled to (on a surface that exists; nothing is rendered
  otherwise), whether it is a separator chunk or a text chunk of the completion stream;
  the pass then goes on.
\<close>

theorem separator_by_substring:
  assumes queue: "message_queue s = Some msg # q"
    and no_error: "\<not> startswith msg ''An error occurred:''"
    and contains:
      "(\<exists>a b. msg = a @ ''Answers for'' @ b) \<or>
       (\<exists>a b. msg = a @ ''Possible Follow-up Questions and Answers'' @ b)"
  shows "update_gui s =
           update_gui (s\<lparr>message_queue := q,
             text_display :=
               map_option (\<lambda>d. d @
                   (if surface_ok s
                    then [Configure ''normal'', Insert msg (Some ''separator''), See,
                          Configure ''disabled'']
                    else []))
                 (text_display s)\<rparr>)"
proof -
  have "str_in ''Answers for'' msg \<or> str_in ''Possible Follow-up Questions and Answers'' msg"
    using contains unfolding str_in_iff .
  then have "render_text msg =
      [Configure ''normal'', Insert msg (Some ''separator''), See, Configure ''disabled'']"
    by (simp add: render_text_def del: str_in.simps)
  then show ?thesis
    using update_gui_text_step [OF queue no_error] by simp
qed

theorem separator_by_substring_witness:
  "update_gui (active_bot [Some ''No Answers for that.'']) =
     init_bot\<lparr>root := Some \<lparr>winfo_exists = True, after_calls = [100]\<rparr>,
       text_display := Some [Configure ''normal'',
         Insert ''No Answers for that.'' (Some ''separator''), See, Configure ''disabled''],
       message_queue := []\<rparr>"
proof -
  let ?s1 = "active_bot [Some ''No Answers for that.'']"
  let ?s2 = "?s1\<lparr>message_queue := [],
             text_display :=
               map_option (\<lambda>d. d @ [Configure ''normal'',
                    Insert ''No Answers for that.'' (Some ''separator''), See,
                    Configure ''disabled''])
                 (text_display ?s1)\<rparr>"
  have q: "message_queue ?s1 = Some ''No Answers for that.'' # []"
    by (simp add: active_bot_def init_bot_def)
  have n: "\<not> startswith ''No Answers for that.'' ''An error occurred:''"
    by simp
  have c: "(\<exists>a b. ''No Answers for that.'' = a @ ''Answers for'' @ b) \<or>
       (\<exists>a b. ''No Answers for that.'' = a @ ''Possible Follow-up Questions and Answers'' @ b)"
    unfolding str_in_iff [symmetric] by simp
  have "update_gui ?s1 = update_gui ?s2"
    using separator_by_substring [OF q n c]
    by (simp add: surface_ok_def active_bot_def init_bot_def)
  also have "\<dots> = init_bot\<lparr>root := Some \<lparr>winfo_exists = True, after_calls = [100]\<rparr>,
       text_display := Some [Configure ''normal'',
         Insert ''No Answers for that.'' (Some ''separator''), See, Configure ''disabled''],
       message_queue := []\<rparr>"
    by (simp add: update_gui_def active_bot_def init_bot_def)
  finally show ?thesis .
qed

text \<open>
  Claim C10 as stated fails for a message that starts with \<open>An error occurred:\<close>: the
  test for the error comes first, and the message is inserted without the tag.
\<close>

theorem error_prefix_wins_over_separator:
  "text_display (update_gui (active_bot [Some ''An error occurred: no Answers for you''])) =
     Some [Configure ''normal'',
           Insert ''\<newline>ERROR: An error occurred: no Answers for you\<newline>'' None,
           Configure ''disabled'', See]"
  by (simp add: update_gui_def active_bot_def init_bot_def surface_ok_def render_error_def)

subsection \<open>Two requests in flight\<close>

text \<open>
  Claim C1 does not hold of the code. The handler tests \<open>is_processing\<close>, but the flag
  is set by the worker, as the first statement of \<open>stream_events\<close>, and not by the
  handler before it starts the thread. When the handler takes a second message after
  \<open>thread.start()\<close> of the first worker and before that worker has set the flag, the
  second message is accepted too: two workers are active and their chunks alternate on
  the message queue.
\<close>

theorem two_workers_interleave:
  "replies (run_schedule echo_client ''asst_1''
      [Dispatch \<lparr>update_id = 1, message_text = ''first''\<rparr>,
       Dispatch \<lparr>update_id = 2, message_text = ''second''\<rparr>,
       WorkerStep 0, WorkerStep 1, WorkerStep 0, WorkerStep 1, WorkerStep 0, WorkerStep 1]
      init_bot) =
     [(\<lparr>update_id = 1, message_text = ''first''\<rparr>, ''Processing your request...''),
      (\<lparr>update_id = 2, message_text = ''second''\<rparr>, ''Processing your request...'')]
   \<and> length (active_workers echo_client ''asst_1'' (run_schedule echo_client ''asst_1''
      [Dispatch \<lparr>update_id = 1, message_text = ''first''\<rparr>,
       Dispatch \<lparr>update_id = 2, message_text = ''second''\<rparr>,
       WorkerStep 0, WorkerStep 1, WorkerStep 0, WorkerStep 1, WorkerStep 0, WorkerStep 1]
      init_bot)) = 2
   \<and> message_queue (run_schedule echo_client ''asst_1''
      [Dispatch \<lparr>update_id = 1, message_text = ''first''\<rparr>,
       Dispatch \<lparr>update_id = 2, message_text = ''second''\<rparr>,
       WorkerStep 0, WorkerStep 1, WorkerStep 0, WorkerStep 1, WorkerStep 0, WorkerStep 1]
      init_bot) =
     [Some (answers_separator ''first''), Some (answers_separator ''second''),
      Some ''re first'', Some ''re second'']"
proof -
  let ?u1 = "\<lparr>update_id = 1, message_text = ''first''\<rparr>"
  let ?u2 = "\<lparr>update_id = 2, message_text = ''second''\<rparr>"
  have prog: "stream_events echo_client ''asst_1'' um upd =
      [SetProcessing True, PutMessage (Some (answers_separator um)), PutMessage (Some (''re '' @ um)),
       PutMessage (Some follow_up_separator), PutMessage (Some ''more''),
       PutMessage None, PutDone upd, SetProcessing False]" for um upd
    by (simp add: stream_events_def echo_client_def stream_follow_up_def text_delta_def
        message_completed_def)
  have run: "run_schedule echo_client ''asst_1''
      [Dispatch ?u1, Dispatch ?u2,
       WorkerStep 0, WorkerStep 1, WorkerStep 0, WorkerStep 1, WorkerStep 0, WorkerStep 1]
      init_bot =
    \<lparr>is_processing = True, root = None, text_display = None,
     message_queue = [Some (answers_separator ''first''), Some (answers_separator ''second''),
        Some ''re first'', Some ''re second''],
     done_queue = [],
     stream_threads =
       [\<lparr>thread_user_message = ''first'', thread_update = ?u1, thread_pc = 3\<rparr>,
        \<lparr>thread_user_message = ''second'', thread_update = ?u2, thread_pc = 3\<rparr>],
     gui_threads = 2,
     replies = [(?u1, ''Processing your request...''), (?u2, ''Processing your request...'')]\<rparr>"
    by (simp add: handle_message_def start_streaming_def worker_step_def init_bot_def prog Let_def)
  show ?thesis
    unfolding run by (simp add: active_workers_def prog)
qed

end
